theory Spec2Isabelle
  imports Main "HOL-Library.Word" "HOL-Library.Signed_Division" "HOL-Library.List_Lexorder"
begin

unbundle bit_operations_syntax

section \<open>Data model\<close>

text \<open>
  A Go \<open>byte\<close> is an 8-bit word, a Go \<open>int\<close> (and \<open>int64\<close>) a 64-bit word read in two's
  complement with \<open>sint\<close>. A Go \<open>string\<close> and the contents of a \<open>[]byte\<close> are lists of
  bytes; string literals of the source are written as Isabelle strings and turned into
  bytes by \<open>bytes_of\<close>. Strings are compared bytewise, which is the lexicographic order
  of byte lists.
\<close>

type_synonym byte = "8 word"
type_synonym int64 = "64 word"

definition bytes_of :: "string \<Rightarrow> byte list" where
  "bytes_of s = map of_char s"

subsection \<open>Panics\<close>

text \<open>
  Every way the program can stop abnormally is a value: the run-time panics of slice
  expressions, of indexing and of integer division, and the explicit \<open>panic(err)\<close> of
  \<open>AppendRandom\<close>.
\<close>

datatype error = SliceBoundsOutOfRange | IndexOutOfRange | DivideByZero | EntropyFailure

type_synonym 'a result = "error + 'a"

definition rbind :: "'a result \<Rightarrow> ('a \<Rightarrow> 'b result) \<Rightarrow> 'b result" where
  "rbind m f = (case m of Inl e \<Rightarrow> Inl e | Inr x \<Rightarrow> f x)"

subsection \<open>Alphabets and encodings\<close>

definition LowercaseAlphabet :: "byte list" where
  "LowercaseAlphabet = bytes_of ''0123456789abcdefghjkmnpqrstvwxyz''"

definition UppercaseAlphabet :: "byte list" where
  "UppercaseAlphabet = bytes_of ''0123456789ABCDEFGHJKMNPQRSTVWXYZ''"

definition UppercaseChecksum :: "byte list" where
  "UppercaseChecksum = UppercaseAlphabet @ bytes_of ''*~$=U''"

definition LowercaseChecksum :: "byte list" where
  "LowercaseChecksum = LowercaseAlphabet @ bytes_of ''*~$=u''"

text \<open>
  Modelled from the spec: the base32 transform is the collaborator \<open>encoding/base32\<close>,
  which is not part of the repository. An encoding is its 32-entry symbol table; both
  encodings of the package are built \<open>WithPadding(NoPadding)\<close>, so no padding character
  is ever written.
\<close>

record Encoding =
  encode :: "byte list"

definition NewEncoding :: "byte list \<Rightarrow> Encoding" where
  "NewEncoding encoder = \<lparr>encode = encoder\<rparr>"

definition Lower :: Encoding where
  "Lower = NewEncoding LowercaseAlphabet"

definition Upper :: Encoding where
  "Upper = NewEncoding UppercaseAlphabet"

definition LenTime :: nat where "LenTime = 8"
definition LenRandom :: nat where "LenRandom = 8"
definition LenMD5 :: nat where "LenMD5 = 26"

text \<open>
  Modelled from the spec: the standard base32 bit packing. Five source bytes form a
  40-bit group, most significant byte first, which is cut into eight 5-bit values, most
  significant first; each value selects a symbol of the table. A final group of fewer than
  five bytes is filled with zero bits and gives only the symbols that hold source bits
  (2, 4, 5 or 7 of them); without padding nothing else is written.
\<close>

definition quantum :: "Encoding \<Rightarrow> byte \<Rightarrow> byte \<Rightarrow> byte \<Rightarrow> byte \<Rightarrow> byte \<Rightarrow> byte list" where
  "quantum e b0 b1 b2 b3 b4 =
     (let hi = push_bit 24 (ucast b0) OR push_bit 16 (ucast b1) OR push_bit 8 (ucast b2)
                 OR ucast b3 :: 32 word;
          lo = push_bit 8 hi OR ucast b4 :: 32 word
      in map (\<lambda>v. encode e ! unat (v AND 0x1F))
           [drop_bit 27 hi, drop_bit 22 hi, drop_bit 17 hi, drop_bit 12 hi,
            drop_bit 7 hi, drop_bit 2 hi, drop_bit 5 lo, lo])"

fun encode_groups :: "Encoding \<Rightarrow> byte list \<Rightarrow> byte list" where
  "encode_groups e (b0 # b1 # b2 # b3 # b4 # rest) =
     quantum e b0 b1 b2 b3 b4 @ encode_groups e rest"
| "encode_groups e [b0, b1, b2, b3] = take 7 (quantum e b0 b1 b2 b3 0)"
| "encode_groups e [b0, b1, b2] = take 5 (quantum e b0 b1 b2 0 0)"
| "encode_groups e [b0, b1] = take 4 (quantum e b0 b1 0 0 0)"
| "encode_groups e [b0] = take 2 (quantum e b0 0 0 0 0)"
| "encode_groups e [] = []"

section \<open>Slices and the heap\<close>

text \<open>
  A Go slice is a window on a backing array: the array (\<open>ptr\<close>), the index of the
  window's first element (\<open>off\<close>), its length and its capacity. The heap holds the
  backing arrays, the next unused array identifier, and the run time's policy for the
  capacity of a reallocated array, which the language leaves open.
\<close>

record slice =
  ptr :: nat
  off :: nat
  len :: nat
  cap :: nat

record heap =
  mem :: "nat \<Rightarrow> byte list"
  nxt :: nat
  policy :: "nat \<Rightarrow> nat \<Rightarrow> nat"

definition nil :: slice where
  "nil = \<lparr>ptr = 0, off = 0, len = 0, cap = 0\<rparr>"

text \<open>A slice is valid in a heap when its window, up to its capacity, lies in its array.\<close>

definition valid :: "heap \<Rightarrow> slice \<Rightarrow> bool" where
  "valid h s = (len s \<le> cap s \<and> off s + cap s \<le> length (mem h (ptr s)))"

definition bytes :: "heap \<Rightarrow> slice \<Rightarrow> byte list" where
  "bytes h s = take (len s) (drop (off s) (mem h (ptr s)))"

definition load :: "heap \<Rightarrow> slice \<Rightarrow> nat \<Rightarrow> byte" where
  "load h s i = mem h (ptr s) ! (off s + i)"

definition write_at :: "byte list \<Rightarrow> nat \<Rightarrow> byte list \<Rightarrow> byte list" where
  "write_at a k xs = take k a @ xs @ drop (k + length xs) a"

text \<open>\<open>store s xs\<close> writes \<open>xs\<close> to \<open>s[0]\<close>, \<open>s[1]\<close>, ... of the backing array.\<close>

definition store :: "slice \<Rightarrow> byte list \<Rightarrow> heap \<Rightarrow> heap" where
  "store s xs h = h\<lparr>mem := (mem h)(ptr s := write_at (mem h (ptr s)) (off s) xs)\<rparr>"

text \<open>The slice expression \<open>s[lo:hi]\<close>, which panics unless \<open>lo \<le> hi \<le> cap(s)\<close>.\<close>

definition reslice :: "slice \<Rightarrow> nat \<Rightarrow> nat \<Rightarrow> slice result" where
  "reslice s lo hi =
     (if lo \<le> hi \<and> hi \<le> cap s
      then Inr \<lparr>ptr = ptr s, off = off s + lo, len = hi - lo, cap = cap s - lo\<rparr>
      else Inl SliceBoundsOutOfRange)"

text \<open>
  A new backing array holding \<open>xs\<close>, with capacity at least \<open>c\<close> and the rest zeroed.
\<close>

definition alloc :: "byte list \<Rightarrow> nat \<Rightarrow> heap \<Rightarrow> slice \<times> heap" where
  "alloc xs c h =
     (let n = length xs; c' = max n c
      in (\<lparr>ptr = nxt h, off = 0, len = n, cap = c'\<rparr>,
          h\<lparr>mem := (mem h)(nxt h := xs @ replicate (c' - n) 0), nxt := Suc (nxt h)\<rparr>))"

text \<open>\<open>make([]byte, n, c)\<close> for \<open>n \<le> c\<close>.\<close>

definition make :: "nat \<Rightarrow> nat \<Rightarrow> heap \<Rightarrow> slice \<times> heap" where
  "make n c h = alloc (replicate n 0) c h"

text \<open>The conversion \<open>[]byte(s)\<close> of a string: a fresh array with a copy of \<open>s\<close>.\<close>

definition from_string :: "byte list \<Rightarrow> heap \<Rightarrow> slice \<times> heap" where
  "from_string s h = alloc s (policy h 0 (length s)) h"

text \<open>
  The builtin \<open>append(s, xs...)\<close>: when the capacity suffices the elements are written
  behind the slice in its own array; otherwise a new, sufficiently large array receives the
  old elements and the new ones.
\<close>

definition append_go :: "slice \<Rightarrow> byte list \<Rightarrow> heap \<Rightarrow> slice \<times> heap" where
  "append_go s xs h =
     (let n = len s + length xs
      in if n \<le> cap s
         then (s\<lparr>len := n\<rparr>,
               h\<lparr>mem := (mem h)(ptr s := write_at (mem h (ptr s)) (off s + len s) xs)\<rparr>)
         else alloc (bytes h s @ xs) (policy h (cap s) n) h)"

text \<open>
  \<open>Encode(dst, src)\<close> of the base32 collaborator: the symbols are written to \<open>dst[0]\<close>,
  \<open>dst[1]\<close>, ...; writing past \<open>len(dst)\<close> panics. The source bytes are passed as read
  from memory at the call: the transform reads a group of five bytes before it writes the
  eight symbols of that group.
\<close>

definition Encode :: "Encoding \<Rightarrow> slice \<Rightarrow> byte list \<Rightarrow> heap \<Rightarrow> heap result" where
  "Encode e dst src h =
     (let cs = encode_groups e src
      in if length cs \<le> len dst then Inr (store dst cs h) else Inl IndexOutOfRange)"

section \<open>Buffer growth helpers\<close>

text \<open>
  \<open>ensure\<close> (whose parameter \<open>size\<close> is \<open>sz\<close> here) and \<open>grow\<close>;
  \<open>append(b, make([]byte, n)...)\<close> appends \<open>n\<close> zero bytes.
\<close>

definition ensure :: "nat \<Rightarrow> slice \<Rightarrow> heap \<Rightarrow> ((slice \<times> slice) \<times> heap) result" where
  "ensure sz b h =
     (let newLen = len b + sz
      in rbind (if cap b \<ge> newLen
                then rbind (reslice b 0 newLen) (\<lambda>ret. Inr (ret, h))
                else Inr (append_go b (replicate sz 0) h))
           (\<lambda>(ret, h'). rbind (reslice ret (len b) newLen) (\<lambda>tar. Inr ((ret, tar), h'))))"

definition grow :: "slice \<Rightarrow> nat \<Rightarrow> heap \<Rightarrow> (slice \<times> heap) result" where
  "grow b n h =
     (if cap b - len b > n then Inr (b, h)
      else (let (r, h') = append_go b (replicate n 0) h
            in rbind (reslice r 0 (len b)) (\<lambda>r'. Inr (r', h'))))"

section \<open>Fixed-width encoders\<close>

text \<open>
  A \<open>time.Time\<close> enters \<open>AppendTime\<close> only through \<open>t.Unix()\<close>, so a time is given by
  its Unix second count, an \<open>int64\<close>. \<open>>>\<close> on a signed integer is the arithmetic
  shift, and \<open>byte(_)\<close> keeps the low eight bits.
\<close>

definition AppendTime :: "Encoding \<Rightarrow> int64 \<Rightarrow> slice \<Rightarrow> heap \<Rightarrow> (slice \<times> heap) result" where
  "AppendTime e t dst h =
     (let ut = t;
          src = [ucast (signed_drop_bit 32 ut), ucast (signed_drop_bit 24 ut),
                 ucast (signed_drop_bit 16 ut), ucast (signed_drop_bit 8 ut),
                 ucast ut] :: byte list
      in rbind (ensure LenTime dst h)
           (\<lambda>((ret, tar), h1). rbind (Encode e tar src h1) (\<lambda>h2. Inr (ret, h2))))"

definition Time :: "Encoding \<Rightarrow> int64 \<Rightarrow> heap \<Rightarrow> (byte list \<times> heap) result" where
  "Time e t h = rbind (AppendTime e t nil h) (\<lambda>(ret, h'). Inr (bytes h' ret, h'))"

text \<open>
  The secure random source either fails or supplies bytes; \<open>rand.Read(b)\<close> fills all of
  \<open>b\<close> when it succeeds.
\<close>

datatype entropy = Unavailable | Supplies "nat \<Rightarrow> byte"

definition rand_Read :: "entropy \<Rightarrow> slice \<Rightarrow> heap \<Rightarrow> heap result" where
  "rand_Read r b h =
     (case r of
        Unavailable \<Rightarrow> Inl EntropyFailure
      | Supplies f \<Rightarrow> Inr (store b (map f [0..<len b]) h))"

definition AppendRandom :: "Encoding \<Rightarrow> slice \<Rightarrow> entropy \<Rightarrow> heap \<Rightarrow> (slice \<times> heap) result" where
  "AppendRandom e dst0 r h0 =
     rbind (grow dst0 LenRandom h0) (\<lambda>(dst, h).
     rbind (reslice dst (len dst) (len dst + 5)) (\<lambda>src.
     rbind (rand_Read r src h) (\<lambda>h1.
     rbind (reslice dst (len dst) (len dst + LenRandom)) (\<lambda>tar.
     rbind (Encode e tar (bytes h1 src) h1) (\<lambda>h2.
     rbind (reslice dst 0 (len dst + LenRandom)) (\<lambda>ret. Inr (ret, h2)))))))"

definition Random :: "Encoding \<Rightarrow> entropy \<Rightarrow> heap \<Rightarrow> (byte list \<times> heap) result" where
  "Random e r h = rbind (AppendRandom e nil r h) (\<lambda>(ret, h'). Inr (bytes h' ret, h'))"

text \<open>
  The digest primitive is a parameter \<open>md5sum\<close>. \<open>h.Sum(buf[:0])\<close> appends the digest to
  the empty slice of the 16-byte array \<open>buf\<close>, whose capacity is 16: a digest of at most
  16 bytes is written into \<open>buf\<close> itself, and \<open>buf\<close>, not the returned slice, is encoded.
\<close>

definition md5_Size :: nat where "md5_Size = 16"

definition AppendMD5 ::
  "(byte list \<Rightarrow> byte list) \<Rightarrow> Encoding \<Rightarrow> slice \<Rightarrow> slice \<Rightarrow> heap \<Rightarrow> (slice \<times> heap) result" where
  "AppendMD5 md5sum e dst src h =
     (let d = md5sum (bytes h src);
          buf = (if length d \<le> md5_Size then d @ replicate (md5_Size - length d) 0
                 else replicate md5_Size 0)
      in rbind (ensure LenMD5 dst h)
           (\<lambda>((ret, tar), h1). rbind (Encode e tar buf h1) (\<lambda>h2. Inr (ret, h2))))"

definition MD5 ::
  "(byte list \<Rightarrow> byte list) \<Rightarrow> Encoding \<Rightarrow> slice \<Rightarrow> heap \<Rightarrow> (byte list \<times> heap) result" where
  "MD5 md5sum e src h =
     rbind (AppendMD5 md5sum e nil src h) (\<lambda>(ret, h'). Inr (bytes h' ret, h'))"

section \<open>Checksum\<close>

text \<open>
  Go's \<open>%\<close> on signed integers truncates towards zero and panics on a zero divisor.
\<close>

definition rem_int :: "int64 \<Rightarrow> int64 \<Rightarrow> int64 result" where
  "rem_int a m =
     (if m = 0 then Inl DivideByZero else Inr (word_of_int (sint a smod sint m)))"

text \<open>
  \<open>mod\<close>: the loop \<open>for _, c := range b { rem = (rem*1<<8 + int(c)) % m }\<close>, started
  with \<open>rem = 0\<close>. In Go \<open>*\<close> and \<open><<\<close> have the same precedence and associate to the
  left, so the body computes \<open>((rem*1) << 8 + int(c)) % m\<close> on 64-bit integers.
\<close>

fun mod_loop :: "byte list \<Rightarrow> int64 \<Rightarrow> int64 \<Rightarrow> int64 result" where
  "mod_loop [] m rem = Inr rem"
| "mod_loop (c # b) m rem =
     rbind (rem_int (push_bit 8 (rem * 1) + ucast c) m) (mod_loop b m)"

definition mod_go :: "byte list \<Rightarrow> int64 \<Rightarrow> int64 result" where
  "mod_go b m = mod_loop b m 0"

text \<open>Indexing a string with an \<open>int\<close> panics outside \<open>0 .. len - 1\<close>.\<close>

definition index_go :: "byte list \<Rightarrow> int64 \<Rightarrow> byte result" where
  "index_go s i =
     (if 0 \<le> sint i \<and> nat (sint i) < length s then Inr (s ! nat (sint i))
      else Inl IndexOutOfRange)"

definition Checksum :: "byte list \<Rightarrow> bool \<Rightarrow> byte result" where
  "Checksum body uppercase =
     (let alphabet = (if uppercase then UppercaseChecksum else LowercaseChecksum)
      in rbind (mod_go body 37) (index_go alphabet))"

text \<open>
  The value of a byte sequence read as a big-endian base-256 integer, written from the
  words of the specification: the first byte is the most significant digit.
\<close>

fun be_value :: "byte list \<Rightarrow> nat" where
  "be_value [] = 0"
| "be_value (c # b) = unat c * 256 ^ length b + be_value b"

section \<open>Normalizer\<close>

definition normUpper :: "byte \<Rightarrow> byte" where
  "normUpper c =
     (if c \<in> set (bytes_of ''0Oo'') then of_char CHR ''0''
      else if c \<in> set (bytes_of ''1Ii'') then of_char CHR ''1''
      else if c \<in> set (bytes_of ''23456789ABCDEFGHJKMNPQRSTVWXYZ*~$=U'') then c
      else if c \<in> set (bytes_of ''abcdefghjkmnpqrstvwxyzu'')
        then c + of_char CHR ''A'' - of_char CHR ''a''
      else 0)"

text \<open>
  \<open>AppendNormalized\<close>: the loop \<open>for _, c := range src\<close> reads \<open>src[i]\<close> from memory at
  step \<open>i\<close> and appends to \<open>dst\<close>, which may share memory with \<open>src\<close>.
\<close>

fun norm_loop :: "slice \<Rightarrow> nat list \<Rightarrow> slice \<times> heap \<Rightarrow> slice \<times> heap" where
  "norm_loop src [] (dst, h) = (dst, h)"
| "norm_loop src (i # is) (dst, h) =
     (let c = load h src i; r = normUpper c
      in norm_loop src is (if r \<noteq> 0 then append_go dst [r] h else (dst, h)))"

definition AppendNormalized :: "slice \<Rightarrow> slice \<Rightarrow> heap \<Rightarrow> slice \<times> heap" where
  "AppendNormalized dst src h =
     norm_loop src [0..<len src] (if cap dst = 0 then make 0 (len src) h else (dst, h))"

definition Normalized :: "byte list \<Rightarrow> heap \<Rightarrow> byte list \<times> heap" where
  "Normalized s h =
     (let (src, h1) = from_string s h; (ret, h2) = AppendNormalized nil src h1
      in (bytes h2 ret, h2))"

text \<open>The normalizer as a function on byte lists: every byte is mapped by \<open>normUpper\<close>,
  and the bytes mapped to 0 are left out.\<close>

definition norm_bytes :: "byte list \<Rightarrow> byte list" where
  "norm_bytes xs = filter (\<lambda>r. r \<noteq> 0) (map normUpper xs)"

text \<open>The symbols the normalizer produces: the uppercase checksum alphabet.\<close>

definition canonical :: "byte list" where
  "canonical = bytes_of ''0123456789ABCDEFGHJKMNPQRSTVWXYZ*~$=U''"

text \<open>
  Names for what the encoders append: the symbols of a Unix second count, of five random
  bytes, and the contents of \<open>buf\<close> in \<open>AppendMD5\<close>.
\<close>

definition time_symbols :: "Encoding \<Rightarrow> int64 \<Rightarrow> byte list" where
  "time_symbols e t =
     encode_groups e [ucast (signed_drop_bit 32 t), ucast (signed_drop_bit 24 t),
                      ucast (signed_drop_bit 16 t), ucast (signed_drop_bit 8 t), ucast t]"

definition md5_buf :: "(byte list \<Rightarrow> byte list) \<Rightarrow> byte list \<Rightarrow> byte list" where
  "md5_buf md5sum xs =
     (let d = md5sum xs
      in if length d \<le> md5_Size then d @ replicate (md5_Size - length d) 0
         else replicate md5_Size 0)"

definition random_symbols :: "Encoding \<Rightarrow> (nat \<Rightarrow> byte) \<Rightarrow> byte list" where
  "random_symbols e f = encode_groups e (map f [0..<5])"

text \<open>
  A concrete heap and buffer: the array 1 holds \<open>id-\<close> and nine spare bytes.
\<close>

definition example_heap :: heap where
  "example_heap =
     \<lparr>mem = (\<lambda>_. [])(1 := bytes_of ''id-'' @ replicate 9 0), nxt = 2,
      policy = (\<lambda>c n. 2 * n)\<rparr>"

definition example_dst :: slice where
  "example_dst = \<lparr>ptr = 1, off = 0, len = 3, cap = 12\<rparr>"

text \<open>
  The \<open>k\<close> base-32 digits of a number, most significant first.
\<close>

fun digits32 :: "nat \<Rightarrow> nat \<Rightarrow> nat list" where
  "digits32 0 n = []"
| "digits32 (Suc k) n = (n div 32 ^ k) mod 32 # digits32 k n"

section \<open>Basic facts\<close>

lemma rbind_simps [simp]: "rbind (Inl e) f = Inl e" "rbind (Inr x) f = f x"
  by (simp_all add: rbind_def)

lemma sint_small: "n < 2 ^ 63 \<Longrightarrow> sint (word_of_nat n :: int64) = int n"
proof -
  assume "n < 2 ^ 63"
  then have "int n < 2 ^ 63" by (metis of_nat_less_iff of_nat_numeral of_nat_power)
  then have "signed_take_bit 63 (int n) = int n"
    by (simp add: signed_take_bit_int_eq_self)
  then show ?thesis
    using sint_sbintrunc' [where ?'a = 64, of "int n"] by simp
qed

section \<open>Heap operations\<close>

lemma length_write_at: "k + length xs \<le> length a \<Longrightarrow> length (write_at a k xs) = length a"
  by (simp add: write_at_def)

lemma window_write_at:
  "o1 + n \<le> length a \<Longrightarrow>
   take (n + length xs) (drop o1 (write_at a (o1 + n) xs)) = take n (drop o1 a) @ xs"
  by (simp add: write_at_def drop_take)

lemma alloc_props:
  assumes "alloc xs c h = (s', h')"
  shows "valid h' s'" "bytes h' s' = xs" "ptr s' = nxt h" "nxt h' = Suc (nxt h)"
    "len s' = length xs" "length xs \<le> cap s'" "c \<le> cap s'"
    "\<And>p. p \<noteq> nxt h \<Longrightarrow> mem h' p = mem h p" "policy h' = policy h"
  using assms by (auto simp: alloc_def valid_def bytes_def Let_def)

lemma append_go_all:
  assumes v: "valid h s" and a: "append_go s xs h = (s', h')"
  shows "valid h' s' \<and> bytes h' s' = bytes h s @ xs \<and> len s' = len s + length xs \<and>
      (ptr s' = ptr s \<or> ptr s' = nxt h) \<and> nxt h \<le> nxt h' \<and>
      (\<forall>p. p \<noteq> ptr s' \<longrightarrow> mem h' p = mem h p) \<and> policy h' = policy h"
proof (cases "len s + length xs \<le> cap s")
  case True
  then have s': "s' = s\<lparr>len := len s + length xs\<rparr>"
    and h': "h' = h\<lparr>mem := (mem h)(ptr s := write_at (mem h (ptr s)) (off s + len s) xs)\<rparr>"
    using a by (simp_all add: append_go_def Let_def)
  have in_range: "off s + len s + length xs \<le> length (mem h (ptr s))"
    using v True by (simp add: valid_def)
  have "length (write_at (mem h (ptr s)) (off s + len s) xs) = length (mem h (ptr s))"
    using in_range by (simp add: length_write_at)
  moreover have "take (len s + length xs) (drop (off s) (write_at (mem h (ptr s)) (off s + len s) xs))
      = take (len s) (drop (off s) (mem h (ptr s))) @ xs"
    using in_range by (intro window_write_at) simp
  ultimately show ?thesis
    using v True by (simp add: s' h' valid_def bytes_def)
next
  case False
  then have al: "alloc (bytes h s @ xs) (policy h (cap s) (len s + length xs)) h = (s', h')"
    using a by (simp add: append_go_def Let_def)
  have "length (bytes h s) = len s" using v by (auto simp: bytes_def valid_def)
  then show ?thesis
    using alloc_props [OF al] by simp
qed

lemma append_go_inplace:
  assumes "len s + length xs \<le> cap s" and a: "append_go s xs h = (s', h')"
  shows "ptr s' = ptr s" "off s' = off s" "cap s' = cap s" "nxt h' = nxt h"
  using assms by (auto simp: append_go_def Let_def)

lemma norm_loop_prefix:
  "valid h dst \<Longrightarrow> norm_loop src is (dst, h) = (dst', h') \<Longrightarrow>
   valid h' dst' \<and> (\<exists>app. bytes h' dst' = bytes h dst @ app \<and> length app \<le> length is)"
proof (induction "is" arbitrary: dst h)
  case Nil
  then show ?case by simp
next
  case (Cons i "is")
  let ?r = "normUpper (load h src i)"
  show ?case
  proof (cases "?r = 0")
    case True
    with Cons.prems have "norm_loop src is (dst, h) = (dst', h')" by (simp add: Let_def)
    from Cons.IH [OF Cons.prems(1) this] show ?thesis by auto
  next
    case False
    obtain d1 h1 where ap: "append_go dst [?r] h = (d1, h1)" by (cases "append_go dst [?r] h")
    with False Cons.prems have run: "norm_loop src is (d1, h1) = (dst', h')" by (simp add: Let_def)
    from append_go_all [OF Cons.prems(1) ap]
    have v1: "valid h1 d1" and b1: "bytes h1 d1 = bytes h dst @ [?r]" by simp_all
    from Cons.IH [OF v1 run] b1 show ?thesis by auto
  qed
qed

lemma norm_loop_separate:
  "valid h dst \<Longrightarrow> ptr src \<noteq> ptr dst \<Longrightarrow> ptr src < nxt h \<Longrightarrow>
   norm_loop src is (dst, h) = (dst', h') \<Longrightarrow>
   bytes h' dst' = bytes h dst @ norm_bytes (map (load h src) is)"
proof (induction "is" arbitrary: dst h)
  case Nil
  then show ?case by (simp add: norm_bytes_def)
next
  case (Cons i "is")
  let ?r = "normUpper (load h src i)"
  show ?case
  proof (cases "?r = 0")
    case True
    with Cons.prems have "norm_loop src is (dst, h) = (dst', h')" by (simp add: Let_def)
    from Cons.IH [OF Cons.prems(1-3) this] True show ?thesis by (simp add: norm_bytes_def)
  next
    case False
    obtain d1 h1 where ap: "append_go dst [?r] h = (d1, h1)" by (cases "append_go dst [?r] h")
    with False Cons.prems have run: "norm_loop src is (d1, h1) = (dst', h')" by (simp add: Let_def)
    from append_go_all [OF Cons.prems(1) ap]
    have v1: "valid h1 d1" and b1: "bytes h1 d1 = bytes h dst @ [?r]"
      and p1: "ptr d1 = ptr dst \<or> ptr d1 = nxt h" and n1: "nxt h \<le> nxt h1"
      and fr: "\<forall>p. p \<noteq> ptr d1 \<longrightarrow> mem h1 p = mem h p" by simp_all
    have sep: "ptr src \<noteq> ptr d1" using p1 Cons.prems(2,3) by auto
    have lt: "ptr src < nxt h1" using n1 Cons.prems(3) by simp
    have "mem h1 (ptr src) = mem h (ptr src)" using fr sep by simp
    then have same: "load h1 src = load h src" by (simp add: load_def fun_eq_iff)
    from Cons.IH [OF v1 sep lt run] b1 same False show ?thesis by (simp add: norm_bytes_def)
  qed
qed

lemma map_load: "valid h s \<Longrightarrow> map (load h s) [0..<len s] = bytes h s"
  by (auto simp: valid_def bytes_def load_def intro!: nth_equalityI)

lemma valid_nil [simp]: "valid h nil" by (simp add: valid_def nil_def)
lemma bytes_nil [simp]: "bytes h nil = []" by (simp add: bytes_def nil_def)

lemma Normalized_eq: "fst (Normalized s h) = norm_bytes s"
proof -
  obtain src h1 where fs: "from_string s h = (src, h1)" by (cases "from_string s h")
  obtain dst h2 where mk: "make 0 (len src) h1 = (dst, h2)" by (cases "make 0 (len src) h1")
  obtain ret h3 where run: "norm_loop src [0..<len src] (dst, h2) = (ret, h3)"
    by (cases "norm_loop src [0..<len src] (dst, h2)")
  note a = alloc_props [OF fs [unfolded from_string_def]]
  note b = alloc_props [OF mk [unfolded make_def]]
  have sep: "ptr src \<noteq> ptr dst" "ptr src < nxt h2" using a b by simp_all
  have "mem h2 (ptr src) = mem h1 (ptr src)" using a b by simp
  then have vs: "valid h2 src" and bs: "bytes h2 src = s"
    using a(1,2) by (simp_all add: valid_def bytes_def)
  have "bytes h3 ret = bytes h2 dst @ norm_bytes (map (load h2 src) [0..<len src])"
    using norm_loop_separate [OF b(1) sep run] .
  then have "bytes h3 ret = norm_bytes s" using b(2) map_load [OF vs] bs by simp
  then show ?thesis
    using fs mk run by (simp add: Normalized_def AppendNormalized_def nil_def)
qed

section \<open>The encoders on the heap\<close>

lemma length_quantum [simp]: "length (quantum e b0 b1 b2 b3 b4) = 8"
  by (simp add: quantum_def Let_def)

lemma length_encode_groups: "length (encode_groups e bs) = (length bs * 8 + 4) div 5"
  by (induction e bs rule: encode_groups.induct) simp_all

lemma prefix_write_at:
  "o1 + n \<le> length a \<Longrightarrow> take n (drop o1 (write_at a (o1 + n) xs)) = take n (drop o1 a)"
  by (simp add: write_at_def drop_take)

lemma length_bytes: "valid h s \<Longrightarrow> length (bytes h s) = len s"
  by (auto simp: bytes_def valid_def)

text \<open>Writing \<open>xs\<close> to the last \<open>length xs\<close> places of a valid slice.\<close>

lemma store_tail:
  assumes v: "valid h r" and l: "len r = m + length xs"
    and t: "ptr t = ptr r" "off t = off r + m"
  shows "valid (store t xs h) r" "bytes (store t xs h) r = take m (bytes h r) @ xs"
    "nxt (store t xs h) = nxt h"
proof -
  have in_range: "off r + m + length xs \<le> length (mem h (ptr r))"
    using v l by (simp add: valid_def)
  then have "length (write_at (mem h (ptr r)) (off r + m) xs) = length (mem h (ptr r))"
    by (simp add: length_write_at)
  then show "valid (store t xs h) r" using v t by (simp add: valid_def store_def)
  have "take (m + length xs) (drop (off r) (write_at (mem h (ptr r)) (off r + m) xs))
      = take m (drop (off r) (mem h (ptr r))) @ xs"
    using in_range by (intro window_write_at) simp
  then show "bytes (store t xs h) r = take m (bytes h r) @ xs"
    using t l by (simp add: bytes_def store_def)
  show "nxt (store t xs h) = nxt h" by (simp add: store_def)
qed

lemma ensure_ok:
  assumes v: "valid h b"
  shows "\<exists>ret tar h'. ensure n b h = Inr ((ret, tar), h') \<and> valid h' ret \<and>
           len ret = len b + n \<and> take (len b) (bytes h' ret) = bytes h b \<and>
           ptr tar = ptr ret \<and> off tar = off ret + len b \<and> len tar = n \<and>
           (len b + n \<le> cap b \<longrightarrow>
              h' = h \<and> ptr ret = ptr b \<and> off ret = off b \<and> cap ret = cap b)"
proof (cases "len b + n \<le> cap b")
  case True
  let ?ret = "\<lparr>ptr = ptr b, off = off b, len = len b + n, cap = cap b\<rparr>"
  let ?tar = "\<lparr>ptr = ptr b, off = off b + len b, len = n, cap = cap b - len b\<rparr>"
  have "ensure n b h = Inr ((?ret, ?tar), h)"
    using True by (simp add: ensure_def reslice_def Let_def)
  moreover have "valid h ?ret" using v True by (simp add: valid_def)
  moreover have "take (len b) (bytes h ?ret) = bytes h b" by (simp add: bytes_def min_def)
  ultimately show ?thesis using True by simp
next
  case False
  obtain r h' where ap: "append_go b (replicate n 0) h = (r, h')"
    by (cases "append_go b (replicate n 0) h")
  from append_go_all [OF v ap]
  have vr: "valid h' r" and br: "bytes h' r = bytes h b @ replicate n 0"
    and lr: "len r = len b + n" by simp_all
  have "len r \<le> cap r" using vr by (simp add: valid_def)
  then have "ensure n b h =
      Inr ((r, \<lparr>ptr = ptr r, off = off r + len b, len = n, cap = cap r - len b\<rparr>), h')"
    using False ap lr by (simp add: ensure_def reslice_def Let_def)
  moreover have "take (len b) (bytes h' r) = bytes h b"
    using br length_bytes [OF v] by simp
  ultimately show ?thesis using vr lr False by simp
qed

lemma grow_ok:
  assumes v: "valid h b"
  shows "\<exists>r h'. grow b n h = Inr (r, h') \<and> valid h' r \<and> len r = len b \<and>
           bytes h' r = bytes h b \<and> len b + n \<le> cap r \<and>
           (len b + n \<le> cap b \<longrightarrow>
              nxt h' = nxt h \<and> ptr r = ptr b \<and> off r = off b \<and> cap r = cap b)"
proof (cases "cap b - len b > n")
  case True
  then have "grow b n h = Inr (b, h)" by (simp add: grow_def)
  then show ?thesis using v True by simp
next
  case False
  obtain r h' where ap: "append_go b (replicate n 0) h = (r, h')"
    by (cases "append_go b (replicate n 0) h")
  from append_go_all [OF v ap]
  have vr: "valid h' r" and br: "bytes h' r = bytes h b @ replicate n 0"
    and lr: "len r = len b + n" by simp_all
  let ?r = "\<lparr>ptr = ptr r, off = off r, len = len b, cap = cap r\<rparr>"
  have le: "len r \<le> cap r" using vr by (simp add: valid_def)
  then have g: "grow b n h = Inr (?r, h')"
    using False ap lr by (simp add: grow_def reslice_def)
  have v': "valid h' ?r" using vr lr by (simp add: valid_def)
  have "bytes h' ?r = take (len b) (bytes h' r)" using lr by (simp add: bytes_def min_def)
  then have b': "bytes h' ?r = bytes h b" using br length_bytes [OF v] by simp
  have "len b + n \<le> cap b \<Longrightarrow>
      nxt h' = nxt h \<and> ptr r = ptr b \<and> off r = off b \<and> cap r = cap b"
    using append_go_inplace [OF _ ap] by simp
  then show ?thesis using g v' b' le lr by simp
qed

lemma ensure_Encode:
  assumes v: "valid h dst" and n: "length (encode_groups e src) = n"
  shows "\<exists>ret h'.
           rbind (ensure n dst h)
             (\<lambda>((ret, tar), h1). rbind (Encode e tar src h1) (\<lambda>h2. Inr (ret, h2)))
             = Inr (ret, h') \<and>
           valid h' ret \<and> len ret = len dst + n \<and>
           bytes h' ret = bytes h dst @ encode_groups e src \<and>
           (len dst + n \<le> cap dst \<longrightarrow>
              nxt h' = nxt h \<and> ptr ret = ptr dst \<and> off ret = off dst \<and> cap ret = cap dst)"
proof -
  from ensure_ok [OF v, of n] obtain ret tar h1 where
    en: "ensure n dst h = Inr ((ret, tar), h1)" and vr: "valid h1 ret"
    and lr: "len ret = len dst + n" and pre: "take (len dst) (bytes h1 ret) = bytes h dst"
    and tar: "ptr tar = ptr ret" "off tar = off ret + len dst" "len tar = n"
    and same: "len dst + n \<le> cap dst \<longrightarrow>
      h1 = h \<and> ptr ret = ptr dst \<and> off ret = off dst \<and> cap ret = cap dst"
    by blast
  let ?cs = "encode_groups e src"
  have lr': "len ret = len dst + length ?cs" using lr n by simp
  have enc: "Encode e tar src h1 = Inr (store tar ?cs h1)"
    using tar(3) n by (simp add: Encode_def Let_def)
  note st = store_tail [OF vr lr' tar(1,2)]
  have "rbind (ensure n dst h)
          (\<lambda>((ret, tar), h1). rbind (Encode e tar src h1) (\<lambda>h2. Inr (ret, h2)))
        = Inr (ret, store tar ?cs h1)"
    by (simp add: en enc)
  moreover have "bytes (store tar ?cs h1) ret = bytes h dst @ ?cs"
    using st(2) pre by simp
  ultimately show ?thesis using st(1,3) lr same by auto
qed

lemma length_time_symbols: "length (time_symbols e t) = 8"
  by (simp add: time_symbols_def)

lemma AppendTime_ok:
  assumes v: "valid h dst"
  shows "\<exists>ret h'. AppendTime e t dst h = Inr (ret, h') \<and> valid h' ret \<and>
           len ret = len dst + 8 \<and> bytes h' ret = bytes h dst @ time_symbols e t \<and>
           (len dst + 8 \<le> cap dst \<longrightarrow>
              nxt h' = nxt h \<and> ptr ret = ptr dst \<and> off ret = off dst \<and> cap ret = cap dst)"
  using ensure_Encode [OF v length_time_symbols [unfolded time_symbols_def], of e t]
  by (simp add: AppendTime_def LenTime_def time_symbols_def Let_def)

lemma Time_ok: "\<exists>h'. Time e t h = Inr (time_symbols e t, h')"
proof -
  from AppendTime_ok [OF valid_nil, where h = h and e = e and t = t] obtain ret h' where
    "AppendTime e t nil h = Inr (ret, h')" "bytes h' ret = bytes h nil @ time_symbols e t"
    by blast
  then show ?thesis by (simp add: Time_def)
qed

lemma length_md5_buf: "length (md5_buf md5sum xs) = 16"
  by (simp add: md5_buf_def md5_Size_def Let_def)

lemma length_md5_symbols: "length (encode_groups e (md5_buf md5sum xs)) = 26"
  by (simp add: length_encode_groups length_md5_buf)

lemma AppendMD5_ok:
  assumes v: "valid h dst"
  shows "\<exists>ret h'. AppendMD5 md5sum e dst src h = Inr (ret, h') \<and> valid h' ret \<and>
           len ret = len dst + 26 \<and>
           bytes h' ret = bytes h dst @ encode_groups e (md5_buf md5sum (bytes h src)) \<and>
           (len dst + 26 \<le> cap dst \<longrightarrow>
              nxt h' = nxt h \<and> ptr ret = ptr dst \<and> off ret = off dst \<and> cap ret = cap dst)"
  using ensure_Encode [OF v length_md5_symbols, of e md5sum "bytes h src"]
  by (simp add: AppendMD5_def LenMD5_def md5_buf_def Let_def)

lemma MD5_ok:
  "\<exists>h'. MD5 md5sum e src h = Inr (encode_groups e (md5_buf md5sum (bytes h src)), h')"
proof -
  from AppendMD5_ok [OF valid_nil, where h = h and md5sum = md5sum and e = e and src = src] obtain ret h' where
    "AppendMD5 md5sum e nil src h = Inr (ret, h')"
    "bytes h' ret = bytes h nil @ encode_groups e (md5_buf md5sum (bytes h src))"
    by blast
  then show ?thesis by (simp add: MD5_def)
qed

lemma nxt_store: "nxt (store t xs h) = nxt h"
  by (simp add: store_def)

text \<open>Writing into the spare capacity right behind a valid slice.\<close>

lemma store_spare:
  assumes v: "valid h r" and t: "ptr t = ptr r" "off t = off r + len r"
    and fit: "len r + length xs \<le> cap r"
  shows "valid (store t xs h) r" "bytes (store t xs h) r = bytes h r"
    "len t = length xs \<Longrightarrow> bytes (store t xs h) t = xs" "nxt (store t xs h) = nxt h"
proof -
  have in_range: "off r + len r + length xs \<le> length (mem h (ptr r))"
    using v fit by (simp add: valid_def)
  then have "length (write_at (mem h (ptr r)) (off r + len r) xs) = length (mem h (ptr r))"
    by (simp add: length_write_at)
  then show "valid (store t xs h) r" using v t by (simp add: valid_def store_def)
  have "take (len r) (drop (off r) (write_at (mem h (ptr r)) (off r + len r) xs))
      = take (len r) (drop (off r) (mem h (ptr r)))"
    using in_range by (intro prefix_write_at) simp
  then show "bytes (store t xs h) r = bytes h r" using t by (simp add: bytes_def store_def)
  show "bytes (store t xs h) t = xs" if "len t = length xs"
    using that t in_range by (simp add: bytes_def store_def write_at_def)
  show "nxt (store t xs h) = nxt h" by (simp add: store_def)
qed

lemma length_random_symbols: "length (random_symbols e f) = 8"
  by (simp add: random_symbols_def length_encode_groups)

lemma AppendRandom_ok:
  assumes v: "valid h dst"
  shows "\<exists>ret h'. AppendRandom e dst (Supplies f) h = Inr (ret, h') \<and> valid h' ret \<and>
           len ret = len dst + 8 \<and> bytes h' ret = bytes h dst @ random_symbols e f \<and>
           (len dst + 8 \<le> cap dst \<longrightarrow>
              nxt h' = nxt h \<and> ptr ret = ptr dst \<and> off ret = off dst \<and> cap ret = cap dst)"
proof -
  from grow_ok [OF v, of 8] obtain r h1 where
    g: "grow dst 8 h = Inr (r, h1)" and vr: "valid h1 r" and lr: "len r = len dst"
    and br: "bytes h1 r = bytes h dst" and fit: "len dst + 8 \<le> cap r"
    and same: "len dst + 8 \<le> cap dst \<longrightarrow>
      nxt h1 = nxt h \<and> ptr r = ptr dst \<and> off r = off dst \<and> cap r = cap dst"
    by blast
  let ?src = "\<lparr>ptr = ptr r, off = off r + len r, len = 5, cap = cap r - len r\<rparr>"
  let ?tar = "\<lparr>ptr = ptr r, off = off r + len r, len = 8, cap = cap r - len r\<rparr>"
  let ?ret = "\<lparr>ptr = ptr r, off = off r, len = len r + 8, cap = cap r\<rparr>"
  let ?xs = "map f [0..<5]"
  let ?h2 = "store ?src ?xs h1"
  let ?cs = "random_symbols e f"
  let ?h3 = "store ?tar ?cs ?h2"
  have fit5: "len r + length ?xs \<le> cap r" using fit lr by simp
  have sp: "valid ?h2 r" "bytes ?h2 r = bytes h1 r" "bytes ?h2 ?src = ?xs" "nxt ?h2 = nxt h1"
    using store_spare [OF vr _ _ fit5, of ?src] by simp_all
  have vret: "valid ?h2 ?ret" using sp(1) fit lr by (simp add: valid_def)
  have lret: "len ?ret = len r + length ?cs" by (simp add: length_random_symbols)
  have st: "valid ?h3 ?ret" "bytes ?h3 ?ret = take (len r) (bytes ?h2 ?ret) @ ?cs"
    "nxt ?h3 = nxt ?h2"
    using store_tail [OF vret lret, of ?tar] by simp_all
  have "take (len r) (bytes ?h2 ?ret) = bytes ?h2 r"
    unfolding bytes_def by (simp add: min_def)
  then have bytes3: "bytes ?h3 ?ret = bytes h dst @ ?cs" using st(2) sp(2) br by simp
  have enc: "Encode e ?tar (bytes ?h2 ?src) ?h2 = Inr ?h3"
    using length_random_symbols [of e f]
    by (simp only: sp(3)) (simp add: Encode_def random_symbols_def Let_def)
  have rd: "rand_Read (Supplies f) ?src h1 = Inr ?h2" by (simp add: rand_Read_def)
  have rs: "reslice r (len r) (len r + 5) = Inr ?src" "reslice r (len r) (len r + 8) = Inr ?tar"
    "reslice r 0 (len r + 8) = Inr ?ret"
    using fit lr by (simp_all add: reslice_def)
  have eq: "AppendRandom e dst (Supplies f) h = Inr (?ret, ?h3)"
    unfolding AppendRandom_def LenRandom_def
    by (simp only: g rbind_simps prod.case rs rd enc)
  have c4: "len dst + 8 \<le> cap dst \<longrightarrow>
      nxt ?h3 = nxt h \<and> ptr ?ret = ptr dst \<and> off ?ret = off dst \<and> cap ?ret = cap dst"
    using same by (simp add: nxt_store)
  have c2: "len ?ret = len dst + 8" using lr by simp
  from eq st(1) c2 bytes3 c4 show ?thesis by blast
qed

lemma AppendRandom_fails:
  assumes v: "valid h dst"
  shows "AppendRandom e dst Unavailable h = Inl EntropyFailure"
proof -
  from grow_ok [OF v, of 8] obtain r h1 where
    g: "grow dst 8 h = Inr (r, h1)" and lr: "len r = len dst" and fit: "len dst + 8 \<le> cap r"
    by blast
  have rs: "reslice r (len r) (len r + 5) =
      Inr \<lparr>ptr = ptr r, off = off r + len r, len = 5, cap = cap r - len r\<rparr>"
    using fit lr by (simp add: reslice_def)
  show ?thesis
    unfolding AppendRandom_def LenRandom_def
    by (simp add: g rs rand_Read_def)
qed

lemma Random_ok: "\<exists>h'. Random e (Supplies f) h = Inr (random_symbols e f, h')"
proof -
  from AppendRandom_ok [OF valid_nil, where h = h and e = e and f = f] obtain ret h' where
    "AppendRandom e nil (Supplies f) h = Inr (ret, h')"
    "bytes h' ret = bytes h nil @ random_symbols e f"
    by blast
  then show ?thesis by (simp add: Random_def)
qed

lemma Random_fails: "Random e Unavailable h = Inl EntropyFailure"
  by (simp add: Random_def AppendRandom_fails)

lemma AppendNormalized_prefix:
  assumes v: "valid h dst" and run: "AppendNormalized dst src h = (ret, h')"
  shows "valid h' ret \<and> (\<exists>app. bytes h' ret = bytes h dst @ app \<and> length app \<le> len src)"
proof (cases "cap dst = 0")
  case True
  obtain d h1 where mk: "make 0 (len src) h = (d, h1)" by (cases "make 0 (len src) h")
  note a = alloc_props [OF mk [unfolded make_def]]
  have run': "norm_loop src [0..<len src] (d, h1) = (ret, h')"
    using run True mk by (simp add: AppendNormalized_def)
  have "bytes h dst = []" using v True by (simp add: valid_def bytes_def)
  then show ?thesis using norm_loop_prefix [OF a(1) run'] a(2) by simp
next
  case False
  then have "norm_loop src [0..<len src] (dst, h) = (ret, h')"
    using run by (simp add: AppendNormalized_def)
  from norm_loop_prefix [OF v this] show ?thesis by simp
qed

section \<open>Lengths, prefixes and reallocation\<close>

lemma valid_example: "valid example_heap example_dst"
  by (simp add: valid_def example_heap_def example_dst_def bytes_of_def)

lemma spare_example: "len example_dst + 8 \<le> cap example_dst"
  by (simp add: example_dst_def)

lemma AppendRandom_cases:
  assumes v: "valid h dst"
  shows "(\<exists>ret h'. AppendRandom e dst r h = Inr (ret, h') \<and> len ret = len dst + LenRandom \<and>
            length (bytes h' ret) = length (bytes h dst) + 8) \<or>
         (r = Unavailable \<and> AppendRandom e dst r h = Inl EntropyFailure)"
proof (cases r)
  case Unavailable
  then show ?thesis using AppendRandom_fails [OF v] by simp
next
  case (Supplies f)
  from AppendRandom_ok [OF v, of e f] Supplies show ?thesis
    by (auto simp: LenRandom_def length_random_symbols)
qed

text \<open>
  Claim C5. For every valid destination buffer, every timestamp, every content and every
  digest function, \<open>AppendTime\<close> returns the buffer extended by exactly 8 bytes and
  \<open>AppendMD5\<close> by exactly 26; every call of \<open>AppendRandom\<close> returns it extended by
  exactly 8, unless the random source fails, when the call panics and returns nothing
  (claim C9). The string forms \<open>Time\<close>, \<open>Random\<close> and \<open>MD5\<close> return 8, 8 and 26 characters.
\<close>

theorem fixed_lengths:
  "valid h dst \<Longrightarrow>
   (\<exists>ret h'. AppendTime e t dst h = Inr (ret, h') \<and> len ret = len dst + LenTime \<and>
       length (bytes h' ret) = length (bytes h dst) + 8) \<and>
   ((\<exists>ret h'. AppendRandom e dst r h = Inr (ret, h') \<and> len ret = len dst + LenRandom \<and>
        length (bytes h' ret) = length (bytes h dst) + 8) \<or>
    (r = Unavailable \<and> AppendRandom e dst r h = Inl EntropyFailure)) \<and>
   (\<exists>ret h'. AppendMD5 md5sum e dst src h = Inr (ret, h') \<and> len ret = len dst + LenMD5 \<and>
       length (bytes h' ret) = length (bytes h dst) + 26) \<and>
   (\<exists>s h'. Time e t h = Inr (s, h') \<and> length s = 8) \<and>
   (\<exists>s h'. Random e (Supplies f) h = Inr (s, h') \<and> length s = 8) \<and>
   (\<exists>s h'. MD5 md5sum e src h = Inr (s, h') \<and> length s = 26)"
proof (intro conjI)
  assume v: "valid h dst"
  from AppendTime_ok [OF v, of e t]
  show "\<exists>ret h'. AppendTime e t dst h = Inr (ret, h') \<and> len ret = len dst + LenTime \<and>
       length (bytes h' ret) = length (bytes h dst) + 8"
    by (auto simp: LenTime_def length_time_symbols)
  show "(\<exists>ret h'. AppendRandom e dst r h = Inr (ret, h') \<and> len ret = len dst + LenRandom \<and>
        length (bytes h' ret) = length (bytes h dst) + 8) \<or>
    (r = Unavailable \<and> AppendRandom e dst r h = Inl EntropyFailure)"
    using v by (rule AppendRandom_cases)
  from AppendMD5_ok [OF v, of md5sum e src]
  show "\<exists>ret h'. AppendMD5 md5sum e dst src h = Inr (ret, h') \<and> len ret = len dst + LenMD5 \<and>
       length (bytes h' ret) = length (bytes h dst) + 26"
    by (auto simp: LenMD5_def length_md5_symbols)
  from Time_ok [of e t h] show "\<exists>s h'. Time e t h = Inr (s, h') \<and> length s = 8"
    by (auto simp: length_time_symbols)
  from Random_ok [of e f h] show "\<exists>s h'. Random e (Supplies f) h = Inr (s, h') \<and> length s = 8"
    by (auto simp: length_random_symbols)
  from MD5_ok [of md5sum e src h]
  show "\<exists>s h'. MD5 md5sum e src h = Inr (s, h') \<and> length s = 26"
    by (auto simp: length_md5_symbols)
qed

theorem fixed_lengths_witness:
  "valid example_heap example_dst \<and>
   (\<exists>ret h'. AppendTime Upper 1700000000 example_dst example_heap = Inr (ret, h') \<and>
       len ret = len example_dst + LenTime \<and>
       length (bytes h' ret) = length (bytes example_heap example_dst) + 8) \<and>
   (\<exists>ret h'. AppendRandom Upper example_dst (Supplies word_of_nat) example_heap = Inr (ret, h') \<and>
       len ret = len example_dst + LenRandom \<and>
       length (bytes h' ret) = length (bytes example_heap example_dst) + 8) \<and>
   (\<exists>ret h'. AppendMD5 rev Upper example_dst example_dst example_heap = Inr (ret, h') \<and>
       len ret = len example_dst + LenMD5 \<and>
       length (bytes h' ret) = length (bytes example_heap example_dst) + 26)"
proof -
  have v: "valid example_heap example_dst"
    by (simp add: valid_def example_heap_def example_dst_def bytes_of_def)
  from fixed_lengths [OF v, of Upper 1700000000 "Supplies word_of_nat" rev example_dst] v
  show ?thesis by auto
qed

text \<open>
  Claim C7. When the spare capacity of a valid buffer is at least the number of bytes to
  append, \<open>ensure\<close> and \<open>grow\<close> return a slice on the same backing array with the same
  capacity, and allocate no array: \<open>ensure\<close> leaves the heap as it is, and \<open>grow\<close>
  leaves the allocation counter as it is.
\<close>

theorem no_reallocation_with_spare_capacity:
  "valid h b \<Longrightarrow> len b + n \<le> cap b \<Longrightarrow>
   (\<exists>ret tar. ensure n b h = Inr ((ret, tar), h) \<and>
       ptr ret = ptr b \<and> off ret = off b \<and> cap ret = cap b) \<and>
   (\<exists>r h'. grow b n h = Inr (r, h') \<and> nxt h' = nxt h \<and>
       ptr r = ptr b \<and> off r = off b \<and> cap r = cap b)"
proof (intro conjI)
  assume v: "valid h b" and fit: "len b + n \<le> cap b"
  from ensure_ok [OF v, of n] fit
  show "\<exists>ret tar. ensure n b h = Inr ((ret, tar), h) \<and>
       ptr ret = ptr b \<and> off ret = off b \<and> cap ret = cap b"
    by auto
  from grow_ok [OF v, of n] fit
  show "\<exists>r h'. grow b n h = Inr (r, h') \<and> nxt h' = nxt h \<and>
       ptr r = ptr b \<and> off r = off b \<and> cap r = cap b"
    by auto
qed

theorem no_reallocation_witness:
  "valid example_heap example_dst \<and> len example_dst + 8 \<le> cap example_dst \<and>
   (\<exists>ret tar. ensure 8 example_dst example_heap = Inr ((ret, tar), example_heap) \<and>
       ptr ret = ptr example_dst \<and> off ret = off example_dst \<and> cap ret = cap example_dst) \<and>
   (\<exists>r h'. grow example_dst 8 example_heap = Inr (r, h') \<and> nxt h' = nxt example_heap \<and>
       ptr r = ptr example_dst \<and> off r = off example_dst \<and> cap r = cap example_dst)"
proof -
  have v: "valid example_heap example_dst"
    by (simp add: valid_def example_heap_def example_dst_def bytes_of_def)
  have fit: "len example_dst + 8 \<le> cap example_dst"
    by (simp add: example_dst_def)
  from no_reallocation_with_spare_capacity [OF v fit] v fit
  show ?thesis by blast
qed

text \<open>
  Claim C8. For every valid destination buffer, each of \<open>AppendTime\<close>, \<open>AppendRandom\<close>
  (the source supplying bytes), \<open>AppendMD5\<close> and \<open>AppendNormalized\<close> returns a slice whose
  contents are the old contents of \<open>dst\<close> followed by the appended bytes, whether the
  buffer was reallocated or not.
\<close>

theorem append_keeps_prefix:
  "valid h dst \<Longrightarrow>
   (\<exists>ret h'. AppendTime e t dst h = Inr (ret, h') \<and>
       bytes h' ret = bytes h dst @ time_symbols e t) \<and>
   (\<exists>ret h'. AppendRandom e dst (Supplies f) h = Inr (ret, h') \<and>
       bytes h' ret = bytes h dst @ random_symbols e f) \<and>
   (\<exists>ret h'. AppendMD5 md5sum e dst src h = Inr (ret, h') \<and>
       bytes h' ret = bytes h dst @ encode_groups e (md5_buf md5sum (bytes h src))) \<and>
   (\<exists>ret h' app. AppendNormalized dst src h = (ret, h') \<and>
       bytes h' ret = bytes h dst @ app \<and> length app \<le> len src)"
proof (intro conjI)
  assume v: "valid h dst"
  from AppendTime_ok [OF v, of e t]
  show "\<exists>ret h'. AppendTime e t dst h = Inr (ret, h') \<and>
       bytes h' ret = bytes h dst @ time_symbols e t"
    by blast
  from AppendRandom_ok [OF v, of e f]
  show "\<exists>ret h'. AppendRandom e dst (Supplies f) h = Inr (ret, h') \<and>
       bytes h' ret = bytes h dst @ random_symbols e f"
    by blast
  from AppendMD5_ok [OF v, of md5sum e src]
  show "\<exists>ret h'. AppendMD5 md5sum e dst src h = Inr (ret, h') \<and>
       bytes h' ret = bytes h dst @ encode_groups e (md5_buf md5sum (bytes h src))"
    by blast
  obtain ret h' where run: "AppendNormalized dst src h = (ret, h')"
    by (cases "AppendNormalized dst src h")
  from AppendNormalized_prefix [OF v run] run
  show "\<exists>ret h' app. AppendNormalized dst src h = (ret, h') \<and>
       bytes h' ret = bytes h dst @ app \<and> length app \<le> len src"
    by blast
qed

theorem append_keeps_prefix_witness:
  "valid example_heap example_dst \<and>
   (\<exists>ret h'. AppendTime Upper 1700000000 example_dst example_heap = Inr (ret, h') \<and>
       bytes h' ret = bytes example_heap example_dst @ time_symbols Upper 1700000000) \<and>
   (\<exists>ret h' app. AppendNormalized example_dst example_dst example_heap = (ret, h') \<and>
       bytes h' ret = bytes example_heap example_dst @ app \<and> length app \<le> len example_dst)"
proof -
  have v: "valid example_heap example_dst"
    by (simp add: valid_def example_heap_def example_dst_def bytes_of_def)
  from append_keeps_prefix [OF v, of Upper 1700000000 word_of_nat rev example_dst] v
  show ?thesis by blast
qed

text \<open>
  Claim C9. When the random source fails, \<open>AppendRandom\<close> and \<open>Random\<close> end in the
  panic and return nothing; when it supplies bytes they return normally, with the
  symbols of those bytes appended.
\<close>

theorem entropy_failure_is_fatal:
  "valid h dst \<Longrightarrow>
   AppendRandom e dst Unavailable h = Inl EntropyFailure \<and>
   Random e Unavailable h = Inl EntropyFailure \<and>
   (\<exists>ret h'. AppendRandom e dst (Supplies f) h = Inr (ret, h') \<and>
       bytes h' ret = bytes h dst @ random_symbols e f) \<and>
   (\<exists>h'. Random e (Supplies f) h = Inr (random_symbols e f, h'))"
proof (intro conjI)
  assume v: "valid h dst"
  show "AppendRandom e dst Unavailable h = Inl EntropyFailure"
    using v by (rule AppendRandom_fails)
  show "Random e Unavailable h = Inl EntropyFailure" by (rule Random_fails)
  from AppendRandom_ok [OF v, of e f]
  show "\<exists>ret h'. AppendRandom e dst (Supplies f) h = Inr (ret, h') \<and>
       bytes h' ret = bytes h dst @ random_symbols e f"
    by blast
  show "\<exists>h'. Random e (Supplies f) h = Inr (random_symbols e f, h')" by (rule Random_ok)
qed

theorem entropy_failure_witness:
  "valid example_heap example_dst \<and>
   AppendRandom Lower example_dst Unavailable example_heap = Inl EntropyFailure \<and>
   Random Lower Unavailable example_heap = Inl EntropyFailure \<and>
   (\<exists>h'. Random Lower (Supplies word_of_nat) example_heap =
       Inr (random_symbols Lower word_of_nat, h'))"
proof -
  have v: "valid example_heap example_dst"
    by (simp add: valid_def example_heap_def example_dst_def bytes_of_def)
  from entropy_failure_is_fatal [OF v, of Lower word_of_nat] v
  show ?thesis by blast
qed

section \<open>The symbols of a time\<close>

lemma time_byte:
  "k \<le> 56 \<Longrightarrow>
   bit (ucast (ucast (signed_drop_bit k (t::int64)) :: byte) :: 32 word) n \<longleftrightarrow> n < 8 \<and> bit t (k + n)"
  by (auto simp: bit_simps)

lemma low_byte:
  "bit (ucast (ucast (t::int64) :: byte) :: 32 word) n \<longleftrightarrow> n < 8 \<and> bit t n"
  by (auto simp: bit_simps)

lemma bit_ucast_drop:
  "bit (ucast (drop_bit k (t::int64)) :: 32 word) n \<longleftrightarrow> n < 32 \<and> bit t (k + n)"
  by (auto simp: bit_simps)

lemma time_hi:
  "push_bit 24 (ucast (ucast (signed_drop_bit 32 (t::int64)) :: byte))
     OR push_bit 16 (ucast (ucast (signed_drop_bit 24 t) :: byte))
     OR push_bit 8 (ucast (ucast (signed_drop_bit 16 t) :: byte))
     OR ucast (ucast (signed_drop_bit 8 t) :: byte)
   = (ucast (drop_bit 8 t) :: 32 word)"
proof (rule bit_word_eqI)
  fix n :: nat
  assume "n < LENGTH(32)"
  then have n: "n < 32" by simp
  consider "n < 8" | "8 \<le> n" "n < 16" | "16 \<le> n" "n < 24" | "24 \<le> n" "n < 32"
    using n by linarith
  then show "bit (push_bit 24 (ucast (ucast (signed_drop_bit 32 t) :: byte))
     OR push_bit 16 (ucast (ucast (signed_drop_bit 24 t) :: byte))
     OR push_bit 8 (ucast (ucast (signed_drop_bit 16 t) :: byte))
     OR (ucast (ucast (signed_drop_bit 8 t) :: byte) :: 32 word)) n
     = bit (ucast (drop_bit 8 t) :: 32 word) n"
    by cases (auto simp: bit_or_iff bit_push_bit_iff time_byte bit_ucast_drop)
qed

lemma time_lo:
  "push_bit 8 (ucast (drop_bit 8 (t::int64)) :: 32 word) OR ucast (ucast t :: byte)
   = (ucast t :: 32 word)"
proof (rule bit_word_eqI)
  fix n :: nat
  assume "n < LENGTH(32)"
  then show "bit (push_bit 8 (ucast (drop_bit 8 t) :: 32 word) OR ucast (ucast t :: byte)) n
     = bit (ucast t :: 32 word) n"
    using bit_ucast_drop [of 0 t n]
    by (cases "n < 8") (auto simp: bit_or_iff bit_push_bit_iff low_byte bit_ucast_drop)
qed

lemma digit_nat:
  "k + 5 \<le> 32 \<Longrightarrow>
   unat (drop_bit k (ucast (w::int64) :: 32 word) AND 0x1F) = (unat w div 2 ^ k) mod 32"
proof -
  assume k: "k + 5 \<le> 32"
  have m: "(0x1F :: 32 word) = mask 5" by (simp add: mask_eq_exp_minus_1)
  have "unat (drop_bit k (ucast w :: 32 word) AND 0x1F)
      = take_bit 5 (drop_bit k (take_bit 32 (unat w)))"
    unfolding m
    by (simp add: take_bit_eq_mask [symmetric] unsigned_take_bit_eq unsigned_drop_bit_eq
        unsigned_ucast_eq)
  also have "\<dots> = take_bit 5 (drop_bit k (unat w))"
    using k by (intro bit_eqI) (auto simp: bit_simps)
  also have "\<dots> = (unat w div 2 ^ k) mod 32"
    by (simp add: take_bit_eq_mod drop_bit_eq_div)
  finally show ?thesis .
qed

lemma digits32_8:
  "digits32 8 n = [(n div 2 ^ 35) mod 32, (n div 2 ^ 30) mod 32, (n div 2 ^ 25) mod 32,
     (n div 2 ^ 20) mod 32, (n div 2 ^ 15) mod 32, (n div 2 ^ 10) mod 32,
     (n div 2 ^ 5) mod 32, (n div 2 ^ 0) mod 32]"
proof -
  have e: "(8::nat) = Suc (Suc (Suc (Suc (Suc (Suc (Suc (Suc 0)))))))" by simp
  show ?thesis unfolding e digits32.simps by simp
qed

lemma digit_hi:
  "k + 5 \<le> 32 \<Longrightarrow>
   unat (drop_bit k (ucast (drop_bit 8 (t::int64)) :: 32 word) AND 0x1F)
     = (unat t div 2 ^ (k + 8)) mod 32"
proof -
  assume "k + 5 \<le> 32"
  then have "unat (drop_bit k (ucast (drop_bit 8 t) :: 32 word) AND 0x1F)
      = (unat (drop_bit 8 t) div 2 ^ k) mod 32"
    by (rule digit_nat)
  also have "unat (drop_bit 8 t) = unat t div 2 ^ 8"
    using unat_drop_bit_eq [of 8 t] by (simp add: drop_bit_eq_div)
  also have "unat t div 2 ^ 8 div 2 ^ k = unat t div 2 ^ (k + 8)"
    by (simp add: div_mult2_eq [symmetric] power_add mult.commute)
  finally show ?thesis .
qed

lemma time_symbols_digits:
  "time_symbols e t = map (\<lambda>d. encode e ! d) (digits32 8 (unat t))"
proof -
  have "time_symbols e t =
      map (\<lambda>v. encode e ! unat (v AND 0x1F))
        [drop_bit 27 (ucast (drop_bit 8 t) :: 32 word), drop_bit 22 (ucast (drop_bit 8 t)),
         drop_bit 17 (ucast (drop_bit 8 t)), drop_bit 12 (ucast (drop_bit 8 t)),
         drop_bit 7 (ucast (drop_bit 8 t)), drop_bit 2 (ucast (drop_bit 8 t)),
         drop_bit 5 (ucast t), drop_bit 0 (ucast t)]"
    unfolding time_symbols_def encode_groups.simps quantum_def Let_def time_hi time_lo
    by simp
  also have "\<dots> = map (\<lambda>d. encode e ! d) (digits32 8 (unat t))"
    unfolding digits32_8 list.map
    using digit_hi [of 27 t] digit_hi [of 22 t] digit_hi [of 17 t] digit_hi [of 12 t]
      digit_hi [of 7 t] digit_hi [of 2 t] digit_nat [of 5 t] digit_nat [of 0 t]
    by simp
  finally show ?thesis .
qed

lemma digits32_less:
  assumes mono: "\<And>i j. i < j \<Longrightarrow> j < 32 \<Longrightarrow> f i < (f j :: byte)"
  shows "n1 mod 32 ^ k < n2 mod 32 ^ k \<Longrightarrow> map f (digits32 k n1) < map f (digits32 k n2)"
proof (induction k)
  case 0
  then show ?case by simp
next
  case (Suc k)
  let ?d1 = "(n1 div 32 ^ k) mod 32" and ?d2 = "(n2 div 32 ^ k) mod 32"
  have split: "n mod 32 ^ Suc k = 32 ^ k * ((n div 32 ^ k) mod 32) + n mod 32 ^ k" for n :: nat
    by (simp only: power_Suc2 mod_mult2_eq)
  have r: "n mod 32 ^ k < 32 ^ k" for n :: nat by simp
  from Suc.prems have lt: "32 ^ k * ?d1 + n1 mod 32 ^ k < 32 ^ k * ?d2 + n2 mod 32 ^ k"
    by (simp only: split)
  have le: "?d1 \<le> ?d2"
  proof (rule ccontr)
    assume "\<not> ?d1 \<le> ?d2"
    then have "Suc ?d2 \<le> ?d1" by simp
    then have "32 ^ k * Suc ?d2 \<le> 32 ^ k * ?d1" by (rule mult_le_mono2)
    then show False using lt r [of n2] by simp
  qed
  show ?case
  proof (cases "?d1 = ?d2")
    case True
    with lt have "n1 mod 32 ^ k < n2 mod 32 ^ k" by simp
    then have "map f (digits32 k n1) < map f (digits32 k n2)" by (rule Suc.IH)
    with True show ?thesis by simp
  next
    case False
    with le have "?d1 < ?d2" by simp
    moreover have "?d2 < 32" by simp
    ultimately have "f ?d1 < f ?d2" by (rule mono)
    then show ?thesis by simp
  qed
qed

lemma alphabets_increasing:
  "sorted_wrt (<) LowercaseAlphabet" "sorted_wrt (<) UppercaseAlphabet"
  "length LowercaseAlphabet = 32" "length UppercaseAlphabet = 32"
  by (simp_all add: LowercaseAlphabet_def UppercaseAlphabet_def bytes_of_def)

lemma time_symbols_less:
  assumes s: "sorted_wrt (<) (encode e)" and l: "length (encode e) = 32"
    and lt: "unat t1 < unat t2" and b: "unat t2 < 2 ^ 40"
  shows "time_symbols e t1 < time_symbols e t2"
proof -
  have mono: "encode e ! i < encode e ! j" if "i < j" "j < 32" for i j
    using s that l by (simp add: sorted_wrt_nth_less)
  have p: "(32::nat) ^ 8 = 2 ^ 40" by simp
  have "unat t1 mod 32 ^ 8 < unat t2 mod 32 ^ 8"
    using lt b by (simp only: p) simp
  then have "map (\<lambda>d. encode e ! d) (digits32 8 (unat t1))
      < map (\<lambda>d. encode e ! d) (digits32 8 (unat t2))"
    by (rule digits32_less [rotated]) (rule mono)
  then show ?thesis by (simp only: time_symbols_digits)
qed

lemma sint_nonneg: "0 \<le> sint (t::int64) \<Longrightarrow> sint t = uint t"
proof -
  assume nn: "0 \<le> sint t"
  have s: "sint t = (uint t + 2 ^ 63) mod 2 ^ 64 - 2 ^ 63"
    using int_word_sint [where ?'a = 64, of "uint t"] by simp
  have u: "0 \<le> uint t" "uint t < 2 ^ 64" using uint_lt2p [of t] by simp_all
  show ?thesis
  proof (cases "uint t < 2 ^ 63")
    case True
    then have "(uint t + 2 ^ 63) mod 2 ^ 64 = uint t + 2 ^ 63"
      using u by (intro mod_pos_pos_trivial) simp_all
    then show ?thesis using s by simp
  next
    case False
    have e: "uint t + 2 ^ 63 = (uint t - 2 ^ 63) + 2 ^ 64" by simp
    have "(uint t + 2 ^ 63) mod 2 ^ 64 = (uint t - 2 ^ 63) mod 2 ^ 64"
      by (subst e) (rule mod_add_self2)
    also have "\<dots> = uint t - 2 ^ 63" using False u by (intro mod_pos_pos_trivial) simp_all
    finally have "sint t = uint t - 2 ^ 64" using s by simp
    then show ?thesis using nn u by simp
  qed
qed

lemma unat_less_of_sint:
  assumes "0 \<le> sint (t1::int64)" "sint t1 < sint (t2::int64)" "sint t2 < 2 ^ 40"
  shows "unat t1 < unat t2" "unat t2 < 2 ^ 40"
proof -
  have 1: "sint t1 = uint t1" using assms(1) by (rule sint_nonneg)
  have 2: "sint t2 = uint t2" using assms(1,2) by (intro sint_nonneg) simp
  have "uint t1 < uint t2" using assms(2) 1 2 by simp
  then show "unat t1 < unat t2" by (simp only: word_less_def [symmetric] word_less_nat_alt)
  have "int (unat t2) < int (2 ^ 40)" using assms(3) 2 by (simp only: uint_nat) simp
  then show "unat t2 < 2 ^ 40" by (simp only: of_nat_less_iff)
qed

text \<open>The regression value of the specification: the symbols of 1700000000.\<close>

lemma Time_example:
  "\<exists>h'. Time Upper 1700000000 h = Inr (bytes_of ''01JN7W80'', h')"
proof -
  have "time_symbols Upper 1700000000 = bytes_of ''01JN7W80''"
    by (simp add: time_symbols_digits digits32_8 Upper_def NewEncoding_def
        UppercaseAlphabet_def bytes_of_def)
  then show ?thesis using Time_ok [of Upper 1700000000 h] by simp
qed

text \<open>
  Claim C1. For Unix second counts \<open>t1 < t2\<close> that both fit in 40 bits
  (\<open>0 \<le> t1\<close> and \<open>t2 < 2^40\<close>), the 8-character string of \<open>Time\<close> for \<open>t1\<close> is
  lexicographically less than the one for \<open>t2\<close>, with the lowercase and with the
  uppercase encoding; by \<open>AppendTime_ok\<close> these strings are what \<open>AppendTime\<close> appends.
\<close>

theorem Time_order:
  assumes "0 \<le> sint t1" and "sint t1 < sint t2" and "sint t2 < 2 ^ 40"
  shows "(\<exists>s1 s2 h1' h2'. Time Lower t1 h1 = Inr (s1, h1') \<and> Time Lower t2 h2 = Inr (s2, h2') \<and>
            length s1 = 8 \<and> length s2 = 8 \<and> s1 < s2) \<and>
         (\<exists>s1 s2 h1' h2'. Time Upper t1 h1 = Inr (s1, h1') \<and> Time Upper t2 h2 = Inr (s2, h2') \<and>
            length s1 = 8 \<and> length s2 = 8 \<and> s1 < s2)"
proof -
  note u = unat_less_of_sint [OF assms]
  have less: "time_symbols e t1 < time_symbols e t2"
    if "sorted_wrt (<) (encode e)" "length (encode e) = 32" for e
    using that u by (rule time_symbols_less)
  have ordered: "\<exists>s1 s2 h1' h2'. Time e t1 h1 = Inr (s1, h1') \<and> Time e t2 h2 = Inr (s2, h2') \<and>
            length s1 = 8 \<and> length s2 = 8 \<and> s1 < s2"
    if "sorted_wrt (<) (encode e)" "length (encode e) = 32" for e
    using Time_ok [of e t1 h1] Time_ok [of e t2 h2] less [OF that]
      length_time_symbols [of e t1] length_time_symbols [of e t2]
    by blast
  have "sorted_wrt (<) (encode Lower)" "length (encode Lower) = 32"
    "sorted_wrt (<) (encode Upper)" "length (encode Upper) = 32"
    using alphabets_increasing by (simp_all add: Lower_def Upper_def NewEncoding_def)
  then show ?thesis using ordered by blast
qed

theorem Time_order_witness:
  "0 \<le> sint (1699999999 :: int64) \<and> sint (1699999999 :: int64) < sint (1700000000 :: int64) \<and>
   sint (1700000000 :: int64) < 2 ^ 40 \<and>
   (\<exists>s1 s2 h1' h2'. Time Upper 1699999999 example_heap = Inr (s1, h1') \<and>
       Time Upper 1700000000 example_heap = Inr (s2, h2') \<and>
       length s1 = 8 \<and> length s2 = 8 \<and> s1 < s2)"
proof -
  have a: "0 \<le> sint (1699999999 :: int64)" by simp
  have b: "sint (1699999999 :: int64) < sint (1700000000 :: int64)" by simp
  have c: "sint (1700000000 :: int64) < 2 ^ 40" by simp
  from Time_order [OF a b c, of example_heap example_heap] a b c
  show ?thesis by blast
qed

lemma low_bits_eq:
  assumes "sint (t1::int64) mod 2 ^ 40 = sint (t2::int64) mod 2 ^ 40" and "m < 40"
  shows "bit t1 m = bit t2 m"
proof -
  have "take_bit 40 (sint t1) = take_bit 40 (sint t2)"
    using assms(1) by (simp add: take_bit_eq_mod)
  then have "bit (take_bit 40 (sint t1)) m = bit (take_bit 40 (sint t2)) m" by simp
  then show ?thesis using assms(2) by (simp add: bit_take_bit_iff bit_sint_iff min_def)
qed

lemma src_byte_eq:
  assumes "sint (t1::int64) mod 2 ^ 40 = sint (t2::int64) mod 2 ^ 40" and "k \<le> 32"
  shows "(ucast (signed_drop_bit k t1) :: byte) = ucast (signed_drop_bit k t2)"
proof (rule bit_word_eqI)
  fix n :: nat
  assume "n < LENGTH(8)"
  then have "k + n < 40" using assms(2) by simp
  then have "bit t1 (k + n) = bit t2 (k + n)" using assms(1) by (intro low_bits_eq)
  then show "bit (ucast (signed_drop_bit k t1) :: byte) n = bit (ucast (signed_drop_bit k t2) :: byte) n"
    using assms(2) \<open>n < LENGTH(8)\<close> by (auto simp: bit_ucast_iff bit_signed_drop_bit_iff)
qed

text \<open>
  Claim C6. Two times whose Unix second counts are congruent modulo \<open>2^40\<close> give the same
  result of \<open>AppendTime\<close> (and of \<open>Time\<close>), and for no second count \<open>t\<close>, negative ones
  and ones beyond 40 bits included, does \<open>AppendTime\<close> or \<open>Time\<close> panic: they return 8
  more bytes.
\<close>

theorem time_truncated_to_40_bits:
  assumes "valid h dst" and "sint t1 mod 2 ^ 40 = sint t2 mod 2 ^ 40"
  shows "AppendTime e t1 dst h = AppendTime e t2 dst h \<and>
         Time e t1 h = Time e t2 h \<and>
         (\<exists>ret h'. AppendTime e t dst h = Inr (ret, h') \<and> len ret = len dst + 8) \<and>
         (\<exists>s h'. Time e t h = Inr (s, h') \<and> length s = 8)"
proof -
  have "(ucast t1 :: byte) = ucast t2"
    using src_byte_eq [OF assms(2), of 0] by simp
  then have eq: "AppendTime e t1 d h = AppendTime e t2 d h" for d
    using src_byte_eq [OF assms(2), of 32] src_byte_eq [OF assms(2), of 24]
      src_byte_eq [OF assms(2), of 16] src_byte_eq [OF assms(2), of 8]
    by (simp add: AppendTime_def Let_def)
  have "\<exists>ret h'. AppendTime e t dst h = Inr (ret, h') \<and> len ret = len dst + 8"
    using AppendTime_ok [OF assms(1), of e t] by blast
  moreover have "\<exists>s h'. Time e t h = Inr (s, h') \<and> length s = 8"
    using Time_ok [of e t h] length_time_symbols [of e t] by blast
  ultimately show ?thesis using eq by (simp add: Time_def)
qed

theorem time_truncated_witness:
  "valid example_heap example_dst \<and>
   sint (5 :: int64) mod 2 ^ 40 = sint (1099511627781 :: int64) mod 2 ^ 40 \<and>
   AppendTime Upper 5 example_dst example_heap =
     AppendTime Upper 1099511627781 example_dst example_heap \<and>
   (\<exists>ret h'. AppendTime Upper (- 1) example_dst example_heap = Inr (ret, h') \<and>
       len ret = len example_dst + 8)"
proof -
  have v: "valid example_heap example_dst"
    by (simp add: valid_def example_heap_def example_dst_def bytes_of_def)
  have c: "sint (5 :: int64) mod 2 ^ 40 = sint (1099511627781 :: int64) mod 2 ^ 40" by simp
  from time_truncated_to_40_bits [OF v c, of Upper "- 1"] v c
  show ?thesis by blast
qed

section \<open>The normalizer\<close>

lemma map_fixed: "map f xs = xs \<Longrightarrow> x \<in> set xs \<Longrightarrow> f x = x"
  by (induction xs) auto

lemma lower_to_upper:
  "map (\<lambda>c. c + of_char CHR ''A'' - of_char CHR ''a'') (bytes_of ''abcdefghjkmnpqrstvwxyzu'')
     = bytes_of ''ABCDEFGHJKMNPQRSTVWXYZU''"
  by (simp add: bytes_of_def)

lemma upper_canonical: "set (bytes_of ''ABCDEFGHJKMNPQRSTVWXYZU'') \<subseteq> set canonical"
  by (simp add: canonical_def bytes_of_def)

lemma normUpper_lower: 
  assumes "c \<in> set (bytes_of ''abcdefghjkmnpqrstvwxyzu'')"
  shows "c + of_char CHR ''A'' - of_char CHR ''a'' \<in> set canonical"
proof -
  have "c + of_char CHR ''A'' - of_char CHR ''a'' \<in>
      (\<lambda>c. c + of_char CHR ''A'' - of_char CHR ''a'') ` set (bytes_of ''abcdefghjkmnpqrstvwxyzu'')"
    using assms by (rule imageI)
  then have "c + of_char CHR ''A'' - of_char CHR ''a'' \<in> set (bytes_of ''ABCDEFGHJKMNPQRSTVWXYZU'')"
    by (simp only: set_map [symmetric] lower_to_upper)
  then show ?thesis using upper_canonical by blast
qed

lemma canonical_fixed: "map normUpper canonical = canonical"
  by (simp add: canonical_def bytes_of_def normUpper_def)

lemma normUpper_fixes_canonical: "r \<in> set canonical \<Longrightarrow> normUpper r = r"
  using canonical_fixed by (rule map_fixed)

lemma normUpper_range: "normUpper c \<noteq> 0 \<Longrightarrow> normUpper c \<in> set canonical"
proof -
  assume nz: "normUpper c \<noteq> 0"
  consider (zero) "c \<in> set (bytes_of ''0Oo'')"
    | (one) "c \<notin> set (bytes_of ''0Oo'')" "c \<in> set (bytes_of ''1Ii'')" 
    | (same) "c \<notin> set (bytes_of ''0Oo'')" "c \<notin> set (bytes_of ''1Ii'')" 
             "c \<in> set (bytes_of ''23456789ABCDEFGHJKMNPQRSTVWXYZ*~$=U'')"
    | (lower) "c \<notin> set (bytes_of ''0Oo'')" "c \<notin> set (bytes_of ''1Ii'')" 
             "c \<notin> set (bytes_of ''23456789ABCDEFGHJKMNPQRSTVWXYZ*~$=U'')"
             "c \<in> set (bytes_of ''abcdefghjkmnpqrstvwxyzu'')"
    | (none) "c \<notin> set (bytes_of ''0Oo'')" "c \<notin> set (bytes_of ''1Ii'')" 
             "c \<notin> set (bytes_of ''23456789ABCDEFGHJKMNPQRSTVWXYZ*~$=U'')"
             "c \<notin> set (bytes_of ''abcdefghjkmnpqrstvwxyzu'')"
    by blast
  then show ?thesis
  proof cases
    case zero
    then have "normUpper c = of_char CHR ''0''" by (simp only: normUpper_def if_True)
    then show ?thesis by (simp add: canonical_def bytes_of_def)
  next
    case one
    then have "normUpper c = of_char CHR ''1''" by (simp only: normUpper_def if_True if_False)
    then show ?thesis by (simp add: canonical_def bytes_of_def)
  next
    case same
    then have "normUpper c = c" by (simp only: normUpper_def if_True if_False)
    with same(3) show ?thesis by (simp add: canonical_def bytes_of_def)
  next
    case lower
    then have "normUpper c = c + of_char CHR ''A'' - of_char CHR ''a''"
      by (simp only: normUpper_def if_True if_False)
    with normUpper_lower [OF lower(4)] show ?thesis by simp
  next
    case none
    then have "normUpper c = 0" by (simp only: normUpper_def if_True if_False)
    with nz show ?thesis by simp
  qed
qed

lemma norm_bytes_canonical: "set (norm_bytes s) \<subseteq> set canonical"
  by (auto simp: norm_bytes_def normUpper_range)

lemma zero_not_canonical: "0 \<notin> set canonical"
  by (simp add: canonical_def bytes_of_def)

lemma norm_bytes_fixes: "set xs \<subseteq> set canonical \<Longrightarrow> norm_bytes xs = xs"
proof (induction xs)
  case Nil
  then show ?case by (simp add: norm_bytes_def)
next
  case (Cons x xs)
  then have "x \<in> set canonical" by simp
  then have "normUpper x = x" "x \<noteq> 0"
    using normUpper_fixes_canonical zero_not_canonical by auto
  with Cons show ?case by (simp add: norm_bytes_def)
qed

text \<open>
  Claim C4. Normalization is idempotent: normalizing the result of \<open>Normalized\<close> again
  returns it unchanged, for every input and whatever the heap of either call is.
\<close>

theorem Normalized_idempotent:
  "fst (Normalized (fst (Normalized s h)) h') = fst (Normalized s h)"
  by (simp only: Normalized_eq norm_bytes_fixes [OF norm_bytes_canonical])

lemma norm_bytes_append: "norm_bytes (xs @ ys) = norm_bytes xs @ norm_bytes ys"
  by (simp add: norm_bytes_def)

lemma norm_bytes_hyphen: "norm_bytes (bytes_of ''-'') = []"
  by (simp add: norm_bytes_def bytes_of_def normUpper_def)

lemma norm_bytes_example: "norm_bytes (bytes_of ''ab-1O'') = bytes_of ''AB10''"
  by (simp add: norm_bytes_def bytes_of_def normUpper_def)

lemma normUpper_ambiguous:
  "normUpper (of_char CHR ''o'') = of_char CHR ''0''"
  "normUpper (of_char CHR ''O'') = of_char CHR ''0''"
  "normUpper (of_char CHR ''i'') = of_char CHR ''1''"
  "normUpper (of_char CHR ''I'') = of_char CHR ''1''"
  by (simp_all add: normUpper_def bytes_of_def)

lemma normUpper_lowercase:
  "map normUpper (bytes_of ''abcdefghjkmnpqrstvwxyzu'') = bytes_of ''ABCDEFGHJKMNPQRSTVWXYZU''"
  by (simp add: normUpper_def bytes_of_def)

text \<open>
  Claim C3. The normalizer maps \<open>o\<close> and \<open>O\<close> to \<open>0\<close>, maps \<open>i\<close> and \<open>I\<close> to
  \<open>1\<close>, maps each valid lowercase letter to its uppercase form, drops a hyphen wherever it
  stands, and \<open>Normalized("ab-1O")\<close> is \<open>"AB10"\<close>.
\<close>

theorem Normalized_maps:
  "normUpper (of_char CHR ''o'') = of_char CHR ''0'' \<and>
   normUpper (of_char CHR ''O'') = of_char CHR ''0'' \<and>
   normUpper (of_char CHR ''i'') = of_char CHR ''1'' \<and>
   normUpper (of_char CHR ''I'') = of_char CHR ''1'' \<and>
   map normUpper (bytes_of ''abcdefghjkmnpqrstvwxyzu'') = bytes_of ''ABCDEFGHJKMNPQRSTVWXYZU'' \<and>
   fst (Normalized (xs @ bytes_of ''-'' @ ys) h) = fst (Normalized (xs @ ys) h) \<and>
   fst (Normalized (bytes_of ''ab-1O'') h) = bytes_of ''AB10''"
  by (simp only: Normalized_eq normUpper_ambiguous normUpper_lowercase norm_bytes_append
      norm_bytes_hyphen norm_bytes_example append_Nil simp_thms)

section \<open>The checksum is the big-endian value modulo 37\<close>

lemma smod_nat: "int a smod int b = int (a mod b)"
  by (cases "a = 0") (simp_all add: smod_int_alt_def zmod_int)

lemma rem_step:
  assumes "r < 37"
  shows "rem_int (push_bit 8 (word_of_nat r * 1) + ucast c) 37 =
         Inr (word_of_nat ((r * 256 + unat (c::byte)) mod 37))"
proof -
  have c: "unat c < 256" using unsigned_less [of c, where ?'a = nat] by simp
  have eq: "push_bit 8 (word_of_nat r * 1) + ucast c = (word_of_nat (r * 256 + unat c) :: int64)"
    by (simp add: push_bit_eq_mult)
  have "r * 256 + unat c < 2 ^ 63" using assms c by simp
  then have "sint (word_of_nat (r * 256 + unat c) :: int64) = int (r * 256 + unat c)"
    by (rule sint_small)
  moreover have "sint (37 :: int64) = int 37" by simp
  ultimately have "sint (word_of_nat (r * 256 + unat c) :: int64) smod sint (37 :: int64)
      = int ((r * 256 + unat c) mod 37)"
    by (simp only: smod_nat)
  then show ?thesis unfolding eq
    by (simp add: rem_int_def)
qed

lemma mod_loop_37:
  "r < 37 \<Longrightarrow>
   mod_loop b 37 (word_of_nat r) = Inr (word_of_nat ((r * 256 ^ length b + be_value b) mod 37))"
proof (induction b arbitrary: r)
  case Nil
  then show ?case by simp
next
  case (Cons c b)
  have lt: "(r * 256 + unat c) mod 37 < 37" by simp
  have "((r * 256 + unat c) mod 37 * 256 ^ length b + be_value b) mod 37
      = ((r * 256 + unat c) * 256 ^ length b + be_value b) mod 37"
    by (metis mod_add_left_eq mod_mult_left_eq)
  then have "mod_loop b 37 (word_of_nat ((r * 256 + unat c) mod 37)) =
      Inr (word_of_nat ((r * 256 ^ length (c # b) + be_value (c # b)) mod 37))"
    using Cons.IH [OF lt] by (simp add: algebra_simps)
  then show ?case
    by (simp only: mod_loop.simps rem_step [OF Cons.prems] rbind_simps)
qed

lemma mod_go_37: "mod_go b 37 = Inr (word_of_nat (be_value b mod 37))"
  using mod_loop_37 [of 0 b] by (simp add: mod_go_def)

lemma length_checksum_alphabets:
  "length UppercaseChecksum = 37" "length LowercaseChecksum = 37"
  by (simp_all add: UppercaseChecksum_def LowercaseChecksum_def UppercaseAlphabet_def
      LowercaseAlphabet_def bytes_of_def)

lemma index_go_small:
  "n < length s \<Longrightarrow> n < 2 ^ 63 \<Longrightarrow> index_go s (word_of_nat n) = Inr (s ! n)"
  by (simp add: index_go_def sint_small)

text \<open>
  Claim C2. For every body and every flag, the reduction loop \<open>mod\<close> with modulus 37
  returns the big-endian base-256 value of the body modulo 37, and \<open>Checksum\<close> returns
  the character at that index of the selected 37-symbol checksum alphabet; neither
  panics.
\<close>

theorem Checksum_is_value_mod_37:
  "mod_go body 37 = Inr (word_of_nat (be_value body mod 37)) \<and>
   Checksum body uppercase =
     Inr ((if uppercase then UppercaseChecksum else LowercaseChecksum) ! (be_value body mod 37))"
proof -
  have lt: "be_value body mod 37 < 37" by simp
  then have "be_value body mod 37 < 2 ^ 63" by simp
  with lt show ?thesis
    by (simp add: Checksum_def mod_go_37 index_go_small length_checksum_alphabets)
qed

text \<open>
  Claim C10. For the empty byte sequence \<open>Checksum\<close> returns the character \<open>0\<close>, with
  the uppercase and with the lowercase checksum alphabet.
\<close>

theorem Checksum_empty:
  "Checksum [] True = Inr (of_char CHR ''0'') \<and> Checksum [] False = Inr (of_char CHR ''0'')"
  by (simp add: Checksum_def mod_go_def index_go_def UppercaseChecksum_def
      LowercaseChecksum_def UppercaseAlphabet_def LowercaseAlphabet_def bytes_of_def)

end
